theory Spec2Isabelle
  imports Main "HOL-Library.Monad_Syntax"
begin

section \<open>Memory, pointers and views\<close>

text \<open>
  The library works on \<^verbatim>\<open>const char*\<close> pointers into storage it does not own. A pointer
  is an address, the null pointer is address 0, and the storage is a function from
  addresses to bytes. Pointer arithmetic is integer arithmetic on addresses, so that
  \<^verbatim>\<open>data - 1\<close> and \<^verbatim>\<open>&data[size - n]\<close> are what the source computes even below the
  start of a view.

  The \<^verbatim>\<open>int\<close> fields and parameters of the source are modelled as unbounded integers.
  No arithmetic of the functions below leaves the range of a C \<^verbatim>\<open>int\<close> when the sizes of
  the views are between 0 and \<^verbatim>\<open>INT_MAX\<close> and the parameters are C ints: a negative index
  is only ever added to a non-negative size, and every difference is taken between two
  values of \<open>[0, size]\<close>.
\<close>

type_synonym ptr = int

abbreviation NULL :: ptr where
  "NULL \<equiv> 0"

type_synonym mem = "ptr \<Rightarrow> char"

text \<open>\<^verbatim>\<open>typedef struct strview_t { const char* data; int size; } strview_t;\<close>\<close>

record strview =
  data :: ptr
  size_v :: int

text \<open>\<^verbatim>\<open>#define STRVIEW_INVALID ((strview_t){.data = NULL, .size = 0})\<close>\<close>

definition STRVIEW_INVALID :: strview where
  "STRVIEW_INVALID = \<lparr>data = NULL, size_v = 0\<rparr>"

abbreviation CR :: char where
  "CR \<equiv> CHR 0x0D"

abbreviation LF :: char where
  "LF \<equiv> CHR 0x0A"

abbreviation NUL :: char where
  "NUL \<equiv> CHR 0x00"

subsection \<open>The C library functions the source calls\<close>

text \<open>
  The value of a plain \<^verbatim>\<open>char\<close> promoted to \<^verbatim>\<open>int\<close>. Whether plain \<^verbatim>\<open>char\<close> is signed
  is left to the platform; it is signed here, and the two readings agree on every byte
  below 128.
\<close>

definition char_int :: "char \<Rightarrow> int" where
  "char_int c = (if (of_char c :: int) < 128 then of_char c else of_char c - 256)"

text \<open>\<^verbatim>\<open>toupper\<close> of \<^verbatim>\<open><ctype.h>\<close>: in the C locale only the letters a to z change.\<close>

definition toupper :: "int \<Rightarrow> int" where
  "toupper c = (if 97 \<le> c \<and> c \<le> 122 then c - 32 else c)"

text \<open>The conversion of an \<^verbatim>\<open>int\<close> to \<^verbatim>\<open>size_t\<close> (64 bits).\<close>

definition size_t :: "int \<Rightarrow> nat" where
  "size_t n = nat (n mod 2 ^ 64)"

text \<open>
  \<^verbatim>\<open>memcmp\<close> of \<^verbatim>\<open><string.h>\<close>: the difference of the first two bytes that differ, read
  as unsigned, and 0 when the first \<open>n\<close> bytes agree (so 0 when \<open>n\<close> is 0).
\<close>

fun memcmp :: "mem \<Rightarrow> ptr \<Rightarrow> ptr \<Rightarrow> nat \<Rightarrow> int" where
  "memcmp m a b 0 = 0"
| "memcmp m a b (Suc n) =
     (if m a = m b then memcmp m (a + 1) (b + 1) n else of_char (m a) - of_char (m b))"

text \<open>\<^verbatim>\<open>strlen\<close> of \<^verbatim>\<open><string.h>\<close>: it does not return on storage without a zero byte.\<close>

partial_function (option) strlen :: "mem \<Rightarrow> ptr \<Rightarrow> int option" where
  "strlen m s = (if m s = NUL then Some 0 else do { n \<leftarrow> strlen m (s + 1); Some (n + 1) })"

declare strlen.simps [code]

subsection \<open>Construction and validity\<close>

definition cstr :: "mem \<Rightarrow> ptr \<Rightarrow> strview option" where
  "cstr m c_str =
     (if c_str \<noteq> NULL then do { n \<leftarrow> strlen m c_str; Some \<lparr>data = c_str, size_v = n\<rparr> }
      else Some STRVIEW_INVALID)"

definition strview_is_valid :: "strview \<Rightarrow> bool" where
  "strview_is_valid str = (data str \<noteq> NULL)"

definition strview_swap :: "strview \<Rightarrow> strview \<Rightarrow> strview \<times> strview" where
  "strview_swap a b = (b, a)"

subsection \<open>Comparison\<close>

text \<open>
  The loop \<^verbatim>\<open>while(size-- && !result)\<close> of \<^verbatim>\<open>memcmp_nocase\<close>. Each byte is a plain
  \<^verbatim>\<open>char\<close>; its cast to \<^verbatim>\<open>unsigned\<close> is converted back to the \<^verbatim>\<open>int\<close> parameter of
  \<^verbatim>\<open>toupper\<close>, which gives the value of the \<^verbatim>\<open>char\<close> again.
\<close>

fun memcmp_nocase_loop :: "mem \<Rightarrow> ptr \<Rightarrow> ptr \<Rightarrow> nat \<Rightarrow> int \<Rightarrow> int" where
  "memcmp_nocase_loop m a b 0 result = result"
| "memcmp_nocase_loop m a b (Suc n) result =
     (if result = 0
      then memcmp_nocase_loop m (a + 1) (b + 1) n
             (toupper (char_int (m a)) - toupper (char_int (m b)))
      else result)"

definition memcmp_nocase :: "mem \<Rightarrow> ptr \<Rightarrow> ptr \<Rightarrow> nat \<Rightarrow> int" where
  "memcmp_nocase m a b n = memcmp_nocase_loop m a b n 0"

definition strview_is_match :: "mem \<Rightarrow> strview \<Rightarrow> strview \<Rightarrow> bool" where
  "strview_is_match m str1 str2 =
     (size_v str1 = size_v str2 \<and>
      (data str1 = data str2 \<or> memcmp m (data str1) (data str2) (size_t (size_v str1)) = 0))"

definition strview_is_match_nocase :: "mem \<Rightarrow> strview \<Rightarrow> strview \<Rightarrow> bool" where
  "strview_is_match_nocase m str1 str2 =
     (size_v str1 = size_v str2 \<and>
      (data str1 = data str2 \<or>
       memcmp_nocase m (data str1) (data str2) (size_t (size_v str1)) = 0))"

definition strview_starts_with :: "mem \<Rightarrow> strview \<Rightarrow> strview \<Rightarrow> bool" where
  "strview_starts_with m str1 str2 =
     (if \<not> strview_is_valid str2 then \<not> strview_is_valid str1
      else size_v str1 \<ge> size_v str2 \<and>
           (data str1 = data str2 \<or> memcmp m (data str1) (data str2) (size_t (size_v str2)) = 0))"

definition strview_compare :: "mem \<Rightarrow> strview \<Rightarrow> strview \<Rightarrow> int" where
  "strview_compare m str1 str2 =
     (let compare_size = (if size_v str1 < size_v str2 then size_v str1 else size_v str2);
          result = (if compare_size \<noteq> 0
                    then memcmp m (data str1) (data str2) (size_t compare_size) else 0)
      in if result = 0 \<and> size_v str1 \<noteq> size_v str2
         then (if size_v str1 > size_v str2 then 1 else - 1)
         else result)"

subsection \<open>Region extraction\<close>

definition strview_sub :: "strview \<Rightarrow> int \<Rightarrow> int \<Rightarrow> strview" where
  "strview_sub str begin0 end0 =
     (let result = \<lparr>data = data str, size_v = 0\<rparr> in
      if data str \<noteq> NULL \<and> size_v str \<noteq> 0 then
        let begin1 = (if begin0 < 0 then size_v str + begin0 else begin0);
            end1 = (if end0 < 0 then size_v str + end0 else end0)
        in if begin1 \<le> end1 \<and> begin1 < size_v str \<and> end1 \<ge> 0 then
             let begin2 = (if begin1 < 0 then 0 else begin1);
                 end2 = (if end1 > size_v str then size_v str else end1)
             in \<lparr>data = data str + begin2, size_v = end2 - begin2\<rparr>
           else result\<lparr>data := NULL\<rparr>
      else result)"

subsection \<open>Search\<close>

function find_first_loop :: "mem \<Rightarrow> strview \<Rightarrow> strview \<Rightarrow> ptr \<Rightarrow> bool \<Rightarrow> ptr \<times> bool" where
  "find_first_loop m haystack needle remaining_hay found =
     (if data haystack + size_v haystack - remaining_hay \<ge> size_v needle \<and> \<not> found
      then find_first_loop m haystack needle
             (if memcmp m remaining_hay (data needle) (size_t (size_v needle)) = 0
              then remaining_hay else remaining_hay + 1)
             (memcmp m remaining_hay (data needle) (size_t (size_v needle)) = 0)
      else (remaining_hay, found))"
  by pat_completeness auto
termination
  by (relation "measure (\<lambda>(m, haystack, needle, remaining_hay, found).
        if found then 0
        else 1 + nat (data haystack + size_v haystack - remaining_hay - size_v needle + 1))")
     auto

definition strview_find_first :: "mem \<Rightarrow> strview \<Rightarrow> strview \<Rightarrow> strview" where
  "strview_find_first m haystack needle =
     (let (remaining_hay, found) =
            (if data haystack \<noteq> NULL \<and> data needle \<noteq> NULL
             then find_first_loop m haystack needle (data haystack) False
             else (data haystack, False))
      in if found then \<lparr>data = remaining_hay, size_v = size_v needle\<rparr>
         else STRVIEW_INVALID)"

function find_last_loop :: "mem \<Rightarrow> strview \<Rightarrow> strview \<Rightarrow> ptr \<Rightarrow> bool \<Rightarrow> ptr \<times> bool" where
  "find_last_loop m haystack needle remaining_hay found =
     (if remaining_hay \<ge> data haystack \<and> \<not> found
      then find_last_loop m haystack needle
             (if memcmp m remaining_hay (data needle) (size_t (size_v needle)) = 0
              then remaining_hay else remaining_hay - 1)
             (memcmp m remaining_hay (data needle) (size_t (size_v needle)) = 0)
      else (remaining_hay, found))"
  by pat_completeness auto
termination
  by (relation "measure (\<lambda>(m, haystack, needle, remaining_hay, found).
        if found then 0 else 1 + nat (remaining_hay - data haystack + 1))")
     auto

definition strview_find_last :: "mem \<Rightarrow> strview \<Rightarrow> strview \<Rightarrow> strview" where
  "strview_find_last m haystack needle =
     (let (remaining_hay, found) =
            (if data haystack \<noteq> NULL \<and> data needle \<noteq> NULL
             then find_last_loop m haystack needle
                    (data haystack + (size_v haystack - size_v needle)) False
             else (data haystack + (size_v haystack - size_v needle), False))
      in if found then \<lparr>data = remaining_hay, size_v = size_v needle\<rparr>
         else STRVIEW_INVALID)"

subsection \<open>Character sets\<close>

text \<open>
  The loop of \<^verbatim>\<open>contains_char\<close>, \<^verbatim>\<open>while(!found && ptr != &str.data[str.size])\<close>. It
  compares pointers with \<^verbatim>\<open>!=\<close>, so it does not stop when \<open>ptr\<close> starts beyond the end.
\<close>

partial_function (option)
  contains_char_loop :: "mem \<Rightarrow> strview \<Rightarrow> char \<Rightarrow> bool \<Rightarrow> bool \<Rightarrow> ptr \<Rightarrow> bool option"
where
  "contains_char_loop m str c case_sensetive found p =
     (if \<not> found \<and> p \<noteq> data str + size_v str
      then contains_char_loop m str c case_sensetive
             (if case_sensetive then m p = c
              else toupper (char_int (m p)) = toupper (char_int c))
             (p + 1)
      else Some found)"

declare contains_char_loop.simps [code]

definition contains_char :: "mem \<Rightarrow> strview \<Rightarrow> char \<Rightarrow> bool \<Rightarrow> bool option" where
  "contains_char m str c case_sensetive =
     contains_char_loop m str c case_sensetive False (data str)"

subsection \<open>Progressive splitting\<close>

text \<open>
  A splitter takes a pointer to the source view and assigns through it. The private
  functions are only called with a pointer that is not null: they take the view stored
  there and return the result together with the view stored there afterwards. The public
  functions take \<open>None\<close> for a null pointer.
\<close>

definition split_index :: "strview \<Rightarrow> int \<Rightarrow> strview \<times> strview" where
  "split_index sv index0 =
     (let remainder = sv;
          neg = index0 < 0;
          index1 = (if neg then size_v sv + index0 else index0);
          index2 = (if index1 < 0 then 0 else index1);
          index3 = (if index2 > size_v sv then size_v sv else index2);
          result = \<lparr>data = data remainder, size_v = index3\<rparr>;
          remainder = \<lparr>data = data remainder + index3, size_v = size_v remainder - index3\<rparr>
      in if \<not> neg then (result, remainder) else (remainder, result))"

definition strview_split_index :: "strview option \<Rightarrow> int \<Rightarrow> strview \<times> strview option" where
  "strview_split_index strview_ptr index0 =
     (case strview_ptr of
        None \<Rightarrow> (STRVIEW_INVALID, None)
      | Some sv \<Rightarrow> (let (result, sv') = split_index sv index0 in (result, Some sv')))"

definition strview_pop_first_char :: "mem \<Rightarrow> strview option \<Rightarrow> char \<times> strview option" where
  "strview_pop_first_char m strview_ptr =
     (case strview_ptr of
        None \<Rightarrow> (NUL, None)
      | Some sv \<Rightarrow>
          if size_v sv \<noteq> 0
          then (let (result, sv') = split_index sv 1 in (m (data result), Some sv'))
          else (NUL, Some sv))"

text \<open>The loop of \<^verbatim>\<open>split_first_delimeter\<close>; it returns \<open>found\<close> and \<open>ptr\<close>.\<close>

partial_function (option)
  split_first_loop :: "mem \<Rightarrow> strview \<Rightarrow> strview \<Rightarrow> bool \<Rightarrow> bool \<Rightarrow> ptr \<Rightarrow> (bool \<times> ptr) option"
where
  "split_first_loop m sv delimiters case_sensetive found p =
     (if p \<noteq> data sv + size_v sv \<and> \<not> found
      then do {
        f \<leftarrow> contains_char m delimiters (m p) case_sensetive;
        split_first_loop m sv delimiters case_sensetive f (if f then p else p + 1)
      }
      else Some (found, p))"

declare split_first_loop.simps [code]

definition split_first_delimeter ::
  "mem \<Rightarrow> strview \<Rightarrow> strview \<Rightarrow> bool \<Rightarrow> (strview \<times> strview) option" where
  "split_first_delimeter m sv delimiters case_sensetive =
     do {
       (found, p) \<leftarrow>
         (if data sv \<noteq> NULL \<and> data delimiters \<noteq> NULL
          then split_first_loop m sv delimiters case_sensetive False (data sv)
          else Some (False, data sv));
       if found
       then (let result = \<lparr>data = data sv, size_v = p - data sv\<rparr>;
                 size1 = size_v sv - size_v result - 1
             in Some (result, \<lparr>data = (if size1 \<noteq> 0 then p + 1 else p), size_v = size1\<rparr>))
       else Some (sv, STRVIEW_INVALID)
     }"

text \<open>
  The loop of \<^verbatim>\<open>split_last_delimeter\<close>, \<^verbatim>\<open>while(ptr != strview_ptr->data-1 && !found)\<close>.
\<close>

partial_function (option)
  split_last_loop :: "mem \<Rightarrow> strview \<Rightarrow> strview \<Rightarrow> bool \<Rightarrow> bool \<Rightarrow> ptr \<Rightarrow> (bool \<times> ptr) option"
where
  "split_last_loop m sv delimiters case_sensetive found p =
     (if p \<noteq> data sv - 1 \<and> \<not> found
      then do {
        f \<leftarrow> contains_char m delimiters (m p) case_sensetive;
        split_last_loop m sv delimiters case_sensetive f (if f then p else p - 1)
      }
      else Some (found, p))"

declare split_last_loop.simps [code]

text \<open>
  When the guard fails \<open>ptr\<close> is never assigned and \<open>found\<close> stays false, so \<open>ptr\<close> is
  not read: any address stands for it.
\<close>

definition split_last_delimeter ::
  "mem \<Rightarrow> strview \<Rightarrow> strview \<Rightarrow> bool \<Rightarrow> (strview \<times> strview) option" where
  "split_last_delimeter m sv delimiters case_sensetive =
     do {
       (found, p) \<leftarrow>
         (if data sv \<noteq> NULL \<and> size_v sv \<noteq> 0 \<and> data delimiters \<noteq> NULL
          then split_last_loop m sv delimiters case_sensetive False (data sv + (size_v sv - 1))
          else Some (False, NULL));
       if found
       then (let size0 = data sv + size_v sv - p;
                 size1 = size0 - 1
             in Some (\<lparr>data = (if size1 \<noteq> 0 then p + 1 else p), size_v = size1\<rparr>,
                      sv\<lparr>size_v := size_v sv - size0\<rparr>))
       else Some (sv, STRVIEW_INVALID)
     }"

definition strview_split_first_delimeter ::
  "mem \<Rightarrow> strview option \<Rightarrow> strview \<Rightarrow> (strview \<times> strview option) option" where
  "strview_split_first_delimeter m strview_ptr delimiters =
     (case strview_ptr of
        None \<Rightarrow> Some (STRVIEW_INVALID, None)
      | Some sv \<Rightarrow> do {
          (result, sv') \<leftarrow> split_first_delimeter m sv delimiters True;
          Some (result, Some sv')
        })"

definition strview_split_last_delimeter ::
  "mem \<Rightarrow> strview option \<Rightarrow> strview \<Rightarrow> (strview \<times> strview option) option" where
  "strview_split_last_delimeter m strview_ptr delimiters =
     (case strview_ptr of
        None \<Rightarrow> Some (STRVIEW_INVALID, None)
      | Some sv \<Rightarrow> do {
          (result, sv') \<leftarrow> split_last_delimeter m sv delimiters True;
          Some (result, Some sv')
        })"

text \<open>
  \<^verbatim>\<open>strview_split_line\<close>. The string literal \<^verbatim>\<open>"\r\n"\<close> is storage of the program: \<open>crlf\<close>
  is its address. The local \<open>src\<close> is always passed by a pointer that is not null. The
  function returns the result, the view stored at \<open>strview_ptr\<close> and the byte stored at
  \<open>eol\<close> afterwards.
\<close>

definition strview_split_line ::
  "mem \<Rightarrow> ptr \<Rightarrow> strview option \<Rightarrow> char option
     \<Rightarrow> (strview \<times> strview option \<times> char option) option" where
  "strview_split_line m crlf strview_ptr eol =
     (case strview_ptr of
        None \<Rightarrow> Some (STRVIEW_INVALID, None, eol)
      | Some sv \<Rightarrow>
          if size_v sv \<noteq> 0 then do {
            let src = sv;
            let src = (case eol of
                         None \<Rightarrow> src
                       | Some c \<Rightarrow>
                           if c \<noteq> NUL \<and> char_int c + char_int (m (data src)) = char_int CR + char_int LF
                           then (case snd (strview_pop_first_char m (Some src)) of
                                   Some src' \<Rightarrow> src' | None \<Rightarrow> src)
                           else src);
            delimiters \<leftarrow> cstr m crlf;
            (result, src_ptr) \<leftarrow> strview_split_first_delimeter m (Some src) delimiters;
            let src = (case src_ptr of Some src' \<Rightarrow> src' | None \<Rightarrow> src);
            if strview_is_valid src
            then (let e = m (data result + size_v result);
                      paired = (char_int e + char_int (m (data src)) = char_int CR + char_int LF);
                      src = (if paired
                             then (case snd (strview_pop_first_char m (Some src)) of
                                     Some src' \<Rightarrow> src' | None \<Rightarrow> src)
                             else src);
                      e = (if paired then NUL else e)
                  in Some (result, Some src, (case eol of None \<Rightarrow> None | Some _ \<Rightarrow> Some e)))
            else Some (STRVIEW_INVALID, Some result, eol)
          }
          else Some (STRVIEW_INVALID, Some sv, eol))"

definition strview_split_left :: "strview option \<Rightarrow> strview \<Rightarrow> strview \<times> strview option" where
  "strview_split_left strview_ptr pos =
     (case strview_ptr of
        None \<Rightarrow> (STRVIEW_INVALID, None)
      | Some sv \<Rightarrow>
          if strview_is_valid sv \<and> strview_is_valid pos \<and>
             data sv \<le> data pos \<and> data pos \<le> data sv + size_v sv
          then (let (result, sv') = split_index sv (data pos - data sv) in (result, Some sv'))
          else (STRVIEW_INVALID, Some sv))"

definition strview_split_right :: "strview option \<Rightarrow> strview \<Rightarrow> strview \<times> strview option" where
  "strview_split_right strview_ptr pos =
     (case strview_ptr of
        None \<Rightarrow> (STRVIEW_INVALID, None)
      | Some sv \<Rightarrow>
          if strview_is_valid sv \<and> strview_is_valid pos then
            (let src = sv;
                 split_point = data pos + size_v pos;
                 (result, src) =
                   (if data src \<le> split_point \<and> split_point \<le> data src + size_v src
                    then (let (result, src) = split_index src (split_point - data src)
                          in strview_swap result src)
                    else (STRVIEW_INVALID, src))
             in (result, Some src))
          else (STRVIEW_INVALID, Some sv))"

section \<open>Vocabulary of the properties\<close>

text \<open>
  The content of a view: the bytes of the storage it spans, none for an Invalid view.
\<close>

definition strview_bytes :: "mem \<Rightarrow> strview \<Rightarrow> string" where
  "strview_bytes m v =
     (if data v = NULL then [] else map (\<lambda>i. m (data v + int i)) [0..<nat (size_v v)])"

text \<open>
  The views the library builds and hands on: an Invalid view holds size 0, a valid one
  lies at a positive address and has a size that is not negative.
\<close>

definition wellformed :: "strview \<Rightarrow> bool" where
  "wellformed v = (if data v = NULL then size_v v = 0 else 0 < data v \<and> 0 \<le> size_v v)"

text \<open>Storage holding the string \<open>xs\<close> from address \<open>a\<close> on, and \<open>m\<close> elsewhere.\<close>

definition store :: "ptr \<Rightarrow> string \<Rightarrow> mem \<Rightarrow> mem" where
  "store a xs m = (\<lambda>p. if a \<le> p \<and> p < a + int (length xs) then xs ! nat (p - a) else m p)"

definition zero_mem :: mem where
  "zero_mem = (\<lambda>p. NUL)"

text \<open>
  The caller's loop of the round trip: call \<^verbatim>\<open>strview_split_first_delimeter\<close> until the
  source is Invalid and collect the returned pieces. The fuel bounds the number of calls;
  \<open>None\<close> is a run that needs more.
\<close>

fun split_all :: "nat \<Rightarrow> mem \<Rightarrow> strview \<Rightarrow> strview \<Rightarrow> strview list option" where
  "split_all 0 m v d = None"
| "split_all (Suc k) m v d =
     (if \<not> strview_is_valid v then Some []
      else (case strview_split_first_delimeter m (Some v) d of
              Some (piece, Some v') \<Rightarrow> map_option ((#) piece) (split_all k m v' d)
            | _ \<Rightarrow> None))"

text \<open>
  The pieces joined again, with the byte that follows each piece but the last in the
  storage between it and the next piece: the delimiter the call consumed.
\<close>

fun rejoin :: "mem \<Rightarrow> strview list \<Rightarrow> string" where
  "rejoin m [] = []"
| "rejoin m [p] = strview_bytes m p"
| "rejoin m (p # q # ps) = strview_bytes m p @ m (data p + size_v p) # rejoin m (q # ps)"

text \<open>
  A sequence of calls of the two delimiter splitters on one source, each with its own
  delimiters: \<open>True\<close> selects \<^verbatim>\<open>strview_split_last_delimeter\<close>. It returns the results of
  the calls and the source after the last one.
\<close>

fun split_calls :: "mem \<Rightarrow> strview \<Rightarrow> (bool \<times> strview) list \<Rightarrow> (strview list \<times> strview) option" where
  "split_calls m src [] = Some ([], src)"
| "split_calls m src ((from_end, d) # calls) =
     do {
       (r, src_ptr) \<leftarrow> (if from_end then strview_split_last_delimeter m (Some src) d
                          else strview_split_first_delimeter m (Some src) d);
       (case src_ptr of
          None \<Rightarrow> None
        | Some src' \<Rightarrow> do { (rs, final) \<leftarrow> split_calls m src' calls; Some (r # rs, final) })
     }"

text \<open>The values of a 32-bit C \<^verbatim>\<open>int\<close>.\<close>

definition int_range :: "int \<Rightarrow> bool" where
  "int_range x = (- (2 ^ 31) \<le> x \<and> x < 2 ^ 31)"

section \<open>Content of views and the scans\<close>

lemma strview_bytes_length:
  "data v \<noteq> NULL \<Longrightarrow> length (strview_bytes m v) = nat (size_v v)"
  by (simp add: strview_bytes_def)

lemma strview_bytes_nth:
  "data v \<noteq> NULL \<Longrightarrow> i < nat (size_v v) \<Longrightarrow> strview_bytes m v ! i = m (data v + int i)"
  by (simp add: strview_bytes_def)

lemma strview_bytes_take:
  assumes "data v \<noteq> NULL" "0 \<le> k" "k \<le> size_v v"
  shows "strview_bytes m \<lparr>data = data v, size_v = k\<rparr> = take (nat k) (strview_bytes m v)"
  using assms by (intro nth_equalityI) (auto simp: strview_bytes_def)

lemma strview_bytes_drop:
  assumes "0 < data v" "0 \<le> k" "k \<le> size_v v"
  shows "strview_bytes m \<lparr>data = data v + k, size_v = size_v v - k\<rparr>
           = drop (nat k) (strview_bytes m v)"
  using assms by (intro nth_equalityI) (auto simp: strview_bytes_def nat_diff_distrib algebra_simps)

lemma strview_bytes_slice:
  assumes "0 < data v" "0 \<le> b" "b \<le> e" "e \<le> size_v v"
  shows "strview_bytes m \<lparr>data = data v + b, size_v = e - b\<rparr>
           = take (nat (e - b)) (drop (nat b) (strview_bytes m v))"
  using assms by (intro nth_equalityI) (auto simp: strview_bytes_def nat_diff_distrib algebra_simps)

lemma set_strview_bytes:
  assumes "data v \<noteq> NULL"
  shows "c \<in> set (strview_bytes m v) \<longleftrightarrow> (\<exists>a. data v \<le> a \<and> a < data v + size_v v \<and> m a = c)"
proof
  assume "c \<in> set (strview_bytes m v)"
  then obtain i where "i < nat (size_v v)" "c = m (data v + int i)"
    using assms by (auto simp: strview_bytes_def)
  then show "\<exists>a. data v \<le> a \<and> a < data v + size_v v \<and> m a = c"
    by (intro exI [of _ "data v + int i"]) auto
next
  assume "\<exists>a. data v \<le> a \<and> a < data v + size_v v \<and> m a = c"
  then obtain a where a: "data v \<le> a" "a < data v + size_v v" "m a = c" by blast
  then have "nat (a - data v) < nat (size_v v)" "m (data v + int (nat (a - data v))) = c"
    by auto
  then have "c \<in> (\<lambda>i. m (data v + int i)) ` {0..<nat (size_v v)}"
    by (intro image_eqI [of _ _ "nat (a - data v)"]) simp_all
  then show "c \<in> set (strview_bytes m v)"
    using assms by (simp add: strview_bytes_def)
qed

lemma contains_char_loop_found:
  "contains_char_loop m str c cs True p = Some True"
  by (subst contains_char_loop.simps) simp

lemma contains_char_loop_scan:
  "p \<le> data str + size_v str \<Longrightarrow>
   contains_char_loop m str c True False p
     = Some (\<exists>a. p \<le> a \<and> a < data str + size_v str \<and> m a = c)"
proof (induction "nat (data str + size_v str - p)" arbitrary: p)
  case 0
  then have "p = data str + size_v str" by simp
  then show ?case by (subst contains_char_loop.simps) auto
next
  case (Suc k)
  then have lt: "p < data str + size_v str" by linarith
  show ?case
  proof (cases "m p = c")
    case True
    with lt show ?thesis
      by (subst contains_char_loop.simps) (auto simp: contains_char_loop_found)
  next
    case False
    have "k = nat (data str + size_v str - (p + 1))" using Suc.hyps(2) by linarith
    then have ih: "contains_char_loop m str c True False (p + 1)
        = Some (\<exists>a. p + 1 \<le> a \<and> a < data str + size_v str \<and> m a = c)"
      using Suc.hyps(1) lt by simp
    have "(\<exists>a. p + 1 \<le> a \<and> a < data str + size_v str \<and> m a = c)
        \<longleftrightarrow> (\<exists>a. p \<le> a \<and> a < data str + size_v str \<and> m a = c)"
      using False by (metis add1_zle_eq order_le_less)
    with ih False lt show ?thesis
      by (subst contains_char_loop.simps) simp
  qed
qed

lemma contains_char_set:
  assumes "data d \<noteq> NULL" "0 \<le> size_v d"
  shows "contains_char m d c True = Some (c \<in> set (strview_bytes m d))"
  using assms by (simp add: contains_char_def contains_char_loop_scan set_strview_bytes)

lemma split_first_loop_found:
  "split_first_loop m sv d cs True p = Some (True, p)"
  by (subst split_first_loop.simps) simp

lemma split_first_loop_none:
  assumes "data d \<noteq> NULL" "0 \<le> size_v d"
  shows "p \<le> data sv + size_v sv \<Longrightarrow>
         (\<forall>a. p \<le> a \<and> a < data sv + size_v sv \<longrightarrow> m a \<notin> set (strview_bytes m d)) \<Longrightarrow>
         split_first_loop m sv d True False p = Some (False, data sv + size_v sv)"
proof (induction "nat (data sv + size_v sv - p)" arbitrary: p)
  case 0
  then have "p = data sv + size_v sv" by simp
  then show ?case by (subst split_first_loop.simps) simp
next
  case (Suc k)
  then have lt: "p < data sv + size_v sv" by linarith
  have k: "k = nat (data sv + size_v sv - (p + 1))" using Suc.hyps(2) by linarith
  have "split_first_loop m sv d True False (p + 1) = Some (False, data sv + size_v sv)"
    using Suc.hyps(1) [OF k] lt Suc.prems(2) by simp
  moreover have "m p \<notin> set (strview_bytes m d)" using Suc.prems(2) lt by simp
  ultimately show ?case
    using lt by (subst split_first_loop.simps) (simp add: contains_char_set assms)
qed

lemma split_first_loop_some:
  assumes "data d \<noteq> NULL" "0 \<le> size_v d"
  shows "p \<le> q \<Longrightarrow> q < data sv + size_v sv \<Longrightarrow> m q \<in> set (strview_bytes m d) \<Longrightarrow>
         (\<forall>a. p \<le> a \<and> a < q \<longrightarrow> m a \<notin> set (strview_bytes m d)) \<Longrightarrow>
         split_first_loop m sv d True False p = Some (True, q)"
proof (induction "nat (q - p)" arbitrary: p)
  case 0
  then have "p = q" by simp
  with 0 show ?case
    by (subst split_first_loop.simps) (simp add: contains_char_set assms split_first_loop_found)
next
  case (Suc k)
  then have lt: "p < q" by linarith
  have k: "k = nat (q - (p + 1))" using Suc.hyps(2) by linarith
  have "split_first_loop m sv d True False (p + 1) = Some (True, q)"
    using Suc.hyps(1) [OF k] lt Suc.prems by simp
  moreover have "m p \<notin> set (strview_bytes m d)" using Suc.prems(4) lt by simp
  ultimately show ?case
    using lt Suc.prems(2) by (subst split_first_loop.simps) (simp add: contains_char_set assms)
qed

lemma split_index_nonneg:
  "0 \<le> k \<Longrightarrow> k \<le> size_v v \<Longrightarrow>
   split_index v k = (\<lparr>data = data v, size_v = k\<rparr>, \<lparr>data = data v + k, size_v = size_v v - k\<rparr>)"
  by (simp add: split_index_def Let_def)

lemma bytes_nonempty_valid:
  "wellformed v \<Longrightarrow> i < length (strview_bytes m v) \<Longrightarrow> 0 < data v \<and> int i < size_v v"
  by (cases "data v = NULL") (auto simp: strview_bytes_def wellformed_def)

lemma mem_bytes_valid:
  "wellformed d \<Longrightarrow> c \<in> set (strview_bytes m d) \<Longrightarrow> data d \<noteq> NULL \<and> 0 \<le> size_v d"
  by (cases "data d = NULL") (auto simp: strview_bytes_def wellformed_def)

lemma first_delimiter_index:
  assumes "set xs \<inter> D \<noteq> {}"
  shows "\<exists>i. i < length xs \<and> xs ! i \<in> D \<and> (\<forall>j<i. xs ! j \<notin> D)"
proof -
  from assms obtain x where "x \<in> set xs" "x \<in> D" by blast
  then obtain n where n: "n < length xs \<and> xs ! n \<in> D"
    by (metis in_set_conv_nth)
  define i where "i = (LEAST n. n < length xs \<and> xs ! n \<in> D)"
  have "i < length xs \<and> xs ! i \<in> D" unfolding i_def using n by (rule LeastI)
  moreover have "\<forall>j<i. xs ! j \<notin> D"
  proof (intro allI impI notI)
    fix j assume j: "j < i" "xs ! j \<in> D"
    with \<open>i < length xs \<and> xs ! i \<in> D\<close> have "j < length xs \<and> xs ! j \<in> D" by simp
    then have "i \<le> j" unfolding i_def by (rule Least_le)
    with \<open>j < i\<close> show False by simp
  qed
  ultimately show ?thesis by blast
qed

subsection \<open>No arithmetic leaves the range of int\<close>

lemma strview_sub_int_range:
  assumes "0 \<le> size_v v" and "int_range (size_v v)" and "int_range b" and "int_range e"
  shows "int_range (if b < 0 then size_v v + b else b)
         \<and> int_range (if e < 0 then size_v v + e else e)
         \<and> int_range (size_v (strview_sub v b e))"
  using assms by (auto simp: int_range_def strview_sub_def Let_def)

lemma split_index_int_range:
  assumes "0 \<le> size_v v" and "int_range (size_v v)" and "int_range n"
  shows "int_range (if n < 0 then size_v v + n else n)
         \<and> int_range (size_v (fst (split_index v n)))
         \<and> int_range (size_v (snd (split_index v n)))"
  using assms by (auto simp: int_range_def split_index_def Let_def)

section \<open>Splitting at a located sub-view\<close>

text \<open>
  C1, as the code has it. For a valid source view \<open>src\<close> and a valid view \<open>pos\<close> whose
  span lies inside \<open>src\<close>, \<^verbatim>\<open>strview_split_right(&src, pos)\<close> returns the sub-view of \<open>src\<close>
  running from the end of \<open>pos\<close> to the end of \<open>src\<close>, and updates \<open>src\<close> to the characters
  of \<open>src\<close> before the end of \<open>pos\<close>: the bytes of \<open>pos\<close> stay in the source.
\<close>

theorem strview_split_right_keeps_pos:
  assumes "wellformed src" and "strview_is_valid src"
    and "wellformed pos" and "strview_is_valid pos"
    and "data src \<le> data pos" and "data pos + size_v pos \<le> data src + size_v src"
  shows "\<exists>result src'. strview_split_right (Some src) pos = (result, Some src')
           \<and> result = \<lparr>data = data pos + size_v pos,
                        size_v = data src + size_v src - (data pos + size_v pos)\<rparr>
           \<and> src' = \<lparr>data = data src, size_v = data pos + size_v pos - data src\<rparr>
           \<and> strview_bytes m result
               = drop (nat (data pos + size_v pos - data src)) (strview_bytes m src)
           \<and> strview_bytes m src'
               = take (nat (data pos + size_v pos - data src)) (strview_bytes m src)"
proof -
  let ?k = "data pos + size_v pos - data src"
  from assms have v: "0 < data src" "0 \<le> size_v pos" "data src \<noteq> NULL" "data pos \<noteq> NULL"
    by (auto simp: wellformed_def strview_is_valid_def split: if_splits)
  with assms have k: "0 \<le> ?k" "?k \<le> size_v src" by auto
  have "strview_split_right (Some src) pos
          = (\<lparr>data = data src + ?k, size_v = size_v src - ?k\<rparr>, Some \<lparr>data = data src, size_v = ?k\<rparr>)"
    using v k by (simp add: strview_split_right_def strview_is_valid_def
        split_index_nonneg strview_swap_def Let_def)
  moreover have "strview_bytes m \<lparr>data = data src + ?k, size_v = size_v src - ?k\<rparr>
          = drop (nat ?k) (strview_bytes m src)"
    using v(1) k by (intro strview_bytes_drop)
  moreover have "strview_bytes m \<lparr>data = data src, size_v = ?k\<rparr> = take (nat ?k) (strview_bytes m src)"
    using v(3) k by (intro strview_bytes_take)
  ultimately show ?thesis by (simp add: algebra_simps)
qed

text \<open>The theorem at the source \<open>abcdef\<close> and the position \<open>cd\<close> inside it.\<close>

theorem strview_split_right_keeps_pos_witness:
  "snd (strview_split_right (Some \<lparr>data = 100, size_v = 6\<rparr>) \<lparr>data = 102, size_v = 2\<rparr>)
     = Some \<lparr>data = 100, size_v = 4\<rparr>
   \<and> fst (strview_split_right (Some \<lparr>data = 100, size_v = 6\<rparr>) \<lparr>data = 102, size_v = 2\<rparr>)
     = \<lparr>data = 104, size_v = 2\<rparr>"
  using strview_split_right_keeps_pos [of "\<lparr>data = 100, size_v = 6\<rparr>" "\<lparr>data = 102, size_v = 2\<rparr>" zero_mem]
  by (auto simp: wellformed_def strview_is_valid_def)

text \<open>
  C1 as stated asks the source to keep only the characters before the start of \<open>pos\<close>.
  On the source \<open>abcdef\<close> at address 100 and \<open>pos\<close> the two bytes \<open>cd\<close> at address 102,
  the source keeps \<open>abcd\<close>, not \<open>ab\<close>.
\<close>

theorem strview_split_right_counterexample:
  "snd (strview_split_right (Some \<lparr>data = 100, size_v = 6\<rparr>) \<lparr>data = 102, size_v = 2\<rparr>)
     = Some \<lparr>data = 100, size_v = 4\<rparr>
   \<and> strview_bytes (store 100 ''abcdef'' zero_mem) \<lparr>data = 100, size_v = 4\<rparr> = ''abcd''
   \<and> strview_bytes (store 100 ''abcdef'' zero_mem) \<lparr>data = 100, size_v = 102 - 100\<rparr> = ''ab''
   \<and> snd (strview_split_right (Some \<lparr>data = 100, size_v = 6\<rparr>) \<lparr>data = 102, size_v = 2\<rparr>)
     \<noteq> Some \<lparr>data = 100, size_v = 102 - 100\<rparr>"
  by code_simp

section \<open>Sub-views by index\<close>

text \<open>
  C2, as the code has it. For a valid non-empty view \<open>v\<close> and all integers \<open>b\<close> and \<open>e\<close>,
  \<^verbatim>\<open>strview_sub(v, b, e)\<close> first resolves a negative index as length + index. If the
  resolved \<open>b'\<close> and \<open>e'\<close> satisfy \<open>b' \<le> e'\<close>, \<open>b' < length\<close> and \<open>0 \<le> e'\<close>, then \<open>b'\<close> is
  clamped up to 0 and \<open>e'\<close> down to the length, and the result is the valid view of those
  bytes, anchored at \<open>data + b'\<close> (of length zero when the clamped range is empty). In
  every other case (an inverted range, \<open>b'\<close> at or beyond the length, \<open>e'\<close> negative) the
  result is Invalid.
\<close>

theorem strview_sub_resolved:
  assumes "0 < data v" and "0 < size_v v"
    and "b' = (if b < 0 then size_v v + b else b)"
    and "e' = (if e < 0 then size_v v + e else e)"
  shows "(b' \<le> e' \<and> b' < size_v v \<and> 0 \<le> e' \<longrightarrow>
            strview_sub v b e = \<lparr>data = data v + max 0 b', size_v = min (size_v v) e' - max 0 b'\<rparr>
            \<and> strview_is_valid (strview_sub v b e)
            \<and> strview_bytes m (strview_sub v b e)
                = take (nat (min (size_v v) e' - max 0 b')) (drop (nat (max 0 b')) (strview_bytes m v)))
         \<and> (\<not> (b' \<le> e' \<and> b' < size_v v \<and> 0 \<le> e') \<longrightarrow> strview_sub v b e = STRVIEW_INVALID)"
proof (cases "b' \<le> e' \<and> b' < size_v v \<and> 0 \<le> e'")
  case True
  have eq: "strview_sub v b e
          = \<lparr>data = data v + max 0 b', size_v = min (size_v v) e' - max 0 b'\<rparr>"
    using assms True by (auto simp: strview_sub_def Let_def max_def min_def)
  have "strview_bytes m \<lparr>data = data v + max 0 b', size_v = min (size_v v) e' - max 0 b'\<rparr>
          = take (nat (min (size_v v) e' - max 0 b')) (drop (nat (max 0 b')) (strview_bytes m v))"
    using assms(1,2) True by (intro strview_bytes_slice) auto
  moreover have "strview_is_valid \<lparr>data = data v + max 0 b', size_v = min (size_v v) e' - max 0 b'\<rparr>"
    using assms(1) by (simp add: strview_is_valid_def max_def)
  ultimately show ?thesis using True eq by simp
next
  case False
  then have "strview_sub v b e = STRVIEW_INVALID"
    using assms by (auto simp: strview_sub_def Let_def STRVIEW_INVALID_def)
  with False show ?thesis by blast
qed

text \<open>
  The theorem at \<open>sub(v, -1000, 2)\<close>, at \<open>sub(v, 3, 7)\<close> and at the inverted
  \<open>sub(v, 7, -4)\<close> for a view of ten bytes.
\<close>

theorem strview_sub_resolved_witness:
  "strview_sub \<lparr>data = 100, size_v = 10\<rparr> (- 1000) 2 = \<lparr>data = 100, size_v = 2\<rparr>
   \<and> strview_sub \<lparr>data = 100, size_v = 10\<rparr> 3 7 = \<lparr>data = 103, size_v = 4\<rparr>
   \<and> strview_bytes (store 100 ''...THIS...'' zero_mem) (strview_sub \<lparr>data = 100, size_v = 10\<rparr> 3 7)
       = take 4 (drop 3 (strview_bytes (store 100 ''...THIS...'' zero_mem) \<lparr>data = 100, size_v = 10\<rparr>))
   \<and> strview_sub \<lparr>data = 100, size_v = 10\<rparr> 7 (- 4) = STRVIEW_INVALID"
proof -
  let ?v = "\<lparr>data = 100, size_v = 10\<rparr>"
  let ?m = "store 100 ''...THIS...'' zero_mem"
  have "strview_sub ?v (- 1000) 2 = \<lparr>data = 100, size_v = 2\<rparr>"
    using strview_sub_resolved [of ?v "- 990" "- 1000" 2 2 ?m] by simp
  moreover have "strview_sub ?v 3 7 = \<lparr>data = 103, size_v = 4\<rparr>
      \<and> strview_bytes ?m (strview_sub ?v 3 7) = take 4 (drop 3 (strview_bytes ?m ?v))"
    using strview_sub_resolved [of ?v 3 3 7 7 ?m] by force
  moreover have "strview_sub ?v 7 (- 4) = STRVIEW_INVALID"
    using strview_sub_resolved [of ?v 7 7 6 "- 4" ?m] by simp
  ultimately show ?thesis by blast
qed

text \<open>
  C2 as stated gives a zero-length view anchored at the data pointer of \<open>v\<close> for an empty
  or inverted range. The inverted \<open>sub(v, 3, 2)\<close> on a view of five bytes at address 100
  is Invalid, and the empty \<open>sub(v, 3, 3)\<close> is anchored at address 103.
\<close>

theorem strview_sub_inverted_counterexample:
  "strview_sub \<lparr>data = 100, size_v = 5\<rparr> 3 2 = \<lparr>data = NULL, size_v = 0\<rparr>
   \<and> strview_sub \<lparr>data = 100, size_v = 5\<rparr> 3 2 \<noteq> \<lparr>data = 100, size_v = 0\<rparr>
   \<and> \<not> strview_is_valid (strview_sub \<lparr>data = 100, size_v = 5\<rparr> 3 2)
   \<and> strview_sub \<lparr>data = 100, size_v = 5\<rparr> 3 3 = \<lparr>data = 103, size_v = 0\<rparr>
   \<and> strview_sub \<lparr>data = 100, size_v = 5\<rparr> 3 3 \<noteq> \<lparr>data = 100, size_v = 0\<rparr>"
  by code_simp

section \<open>Invalid views\<close>

text \<open>
  What the functions make of the size stored in an Invalid view: the searches and
  \<^verbatim>\<open>strview_sub\<close> do not read it, \<^verbatim>\<open>strview_is_match\<close> and \<^verbatim>\<open>strview_compare\<close> compare it.
\<close>

lemma invalid_view_stored_size:
  "strview_is_match m \<lparr>data = NULL, size_v = s\<rparr> \<lparr>data = NULL, size_v = t\<rparr> = (s = t)
   \<and> (0 \<le> s \<longrightarrow> strview_compare m \<lparr>data = NULL, size_v = s\<rparr> \<lparr>data = NULL, size_v = 0\<rparr>
                   = (if s = 0 then 0 else 1))
   \<and> strview_sub \<lparr>data = NULL, size_v = s\<rparr> b e = STRVIEW_INVALID
   \<and> strview_find_first m \<lparr>data = NULL, size_v = s\<rparr> needle = STRVIEW_INVALID
   \<and> strview_find_last m \<lparr>data = NULL, size_v = s\<rparr> needle = STRVIEW_INVALID
   \<and> strview_find_first m haystack \<lparr>data = NULL, size_v = s\<rparr> = STRVIEW_INVALID
   \<and> strview_find_last m haystack \<lparr>data = NULL, size_v = s\<rparr> = STRVIEW_INVALID"
  by (simp add: strview_is_match_def strview_compare_def strview_sub_def STRVIEW_INVALID_def
      strview_find_first_def strview_find_last_def)

text \<open>
  C4 fails in the comparisons. The views \<open>{null, 5}\<close> and \<open>{null, 0}\<close> are both Invalid.
  \<^verbatim>\<open>strview_is_match\<close> is documented to return true if both views are invalid, and
  \<^verbatim>\<open>strview_compare\<close> to return 0 if both views are invalid. Against \<open>{null, 0}\<close> the view
  \<open>{null, 5}\<close> does not match and compares as 1, where \<open>{null, 0}\<close> matches and compares
  as 0: the stored size is read. \<^verbatim>\<open>strview_starts_with\<close> decides on validity and holds in
  both cases.
\<close>

theorem invalid_view_stale_size_compared:
  "strview_is_match zero_mem \<lparr>data = NULL, size_v = 5\<rparr> \<lparr>data = NULL, size_v = 0\<rparr> = False
   \<and> strview_is_match zero_mem \<lparr>data = NULL, size_v = 0\<rparr> \<lparr>data = NULL, size_v = 0\<rparr> = True
   \<and> strview_compare zero_mem \<lparr>data = NULL, size_v = 5\<rparr> \<lparr>data = NULL, size_v = 0\<rparr> = 1
   \<and> strview_compare zero_mem \<lparr>data = NULL, size_v = 0\<rparr> \<lparr>data = NULL, size_v = 0\<rparr> = 0
   \<and> strview_starts_with zero_mem \<lparr>data = NULL, size_v = 5\<rparr> \<lparr>data = NULL, size_v = 0\<rparr> = True
   \<and> strview_starts_with zero_mem \<lparr>data = NULL, size_v = 0\<rparr> \<lparr>data = NULL, size_v = 0\<rparr> = True"
  by code_simp

section \<open>Splitting at an index\<close>

text \<open>
  C7, as the code has it. For every view \<open>v\<close> that is valid or stores the size 0, and
  every integer \<open>n\<close>, negative and out of range included, the piece returned by
  \<^verbatim>\<open>strview_split_index(&v, n)\<close> and the piece left in \<open>v\<close>, concatenated head before tail,
  are the content of \<open>v\<close>: the returned piece is the head for \<open>n \<ge> 0\<close> and the tail for
  \<open>n < 0\<close>. Addresses are not negative.
\<close>

theorem split_index_roundtrip:
  assumes "0 \<le> data v" and "strview_is_valid v \<or> size_v v = 0"
  shows "\<exists>r v'. strview_split_index (Some v) n = (r, Some v')
           \<and> (if 0 \<le> n then strview_bytes m r @ strview_bytes m v'
               else strview_bytes m v' @ strview_bytes m r) = strview_bytes m v"
proof -
  consider (invalid) "data v = NULL" "size_v v = 0"
    | (negative) "0 < data v" "size_v v < 0"
    | (regular) "0 < data v" "0 \<le> size_v v"
    using assms unfolding strview_is_valid_def by linarith
  then show ?thesis
  proof cases
    case invalid
    then show ?thesis
      by (simp add: strview_split_index_def split_index_def Let_def strview_bytes_def)
  next
    case negative
    then have "strview_split_index (Some v) n
        = (if 0 \<le> n then (\<lparr>data = data v, size_v = size_v v\<rparr>, Some \<lparr>data = data v + size_v v, size_v = 0\<rparr>)
           else (\<lparr>data = data v + size_v v, size_v = 0\<rparr>, Some \<lparr>data = data v, size_v = size_v v\<rparr>))"
      by (auto simp: strview_split_index_def split_index_def Let_def)
    moreover have "strview_bytes m \<lparr>data = data v, size_v = size_v v\<rparr> = []"
      "strview_bytes m \<lparr>data = data v + size_v v, size_v = 0\<rparr> = []" "strview_bytes m v = []"
      using negative by (simp_all add: strview_bytes_def)
    ultimately show ?thesis by auto
  next
    case regular
    then have v: "0 < data v" "0 \<le> size_v v" "data v \<noteq> NULL" by simp_all
    define k where "k = (if n < 0 then max 0 (size_v v + n) else min (size_v v) n)"
    have k: "0 \<le> k" "k \<le> size_v v" using v by (auto simp: k_def)
    let ?hd = "\<lparr>data = data v, size_v = k\<rparr>"
    let ?tl = "\<lparr>data = data v + k, size_v = size_v v - k\<rparr>"
    have "strview_bytes m ?hd = take (nat k) (strview_bytes m v)"
      using v(3) k by (intro strview_bytes_take)
    moreover have "strview_bytes m ?tl = drop (nat k) (strview_bytes m v)"
      using v(1) k by (intro strview_bytes_drop)
    ultimately have cat: "strview_bytes m ?hd @ strview_bytes m ?tl = strview_bytes m v"
      by simp
    have "strview_split_index (Some v) n = (if 0 \<le> n then (?hd, Some ?tl) else (?tl, Some ?hd))"
      using v by (auto simp: strview_split_index_def split_index_def Let_def k_def max_def min_def)
    with cat show ?thesis by auto
  qed
qed

text \<open>The theorem at \<open>split_index(&v, -5)\<close> on thirteen bytes.\<close>

theorem split_index_roundtrip_witness:
  "strview_bytes (store 100 ''ABCDE...FGHIJ'' zero_mem)
     (the (snd (strview_split_index (Some \<lparr>data = 100, size_v = 13\<rparr>) (- 5))))
   @ strview_bytes (store 100 ''ABCDE...FGHIJ'' zero_mem)
       (fst (strview_split_index (Some \<lparr>data = 100, size_v = 13\<rparr>) (- 5)))
   = strview_bytes (store 100 ''ABCDE...FGHIJ'' zero_mem) \<lparr>data = 100, size_v = 13\<rparr>"
proof -
  have ok: "(0::int) \<le> data \<lparr>data = 100, size_v = 13\<rparr>"
    "strview_is_valid \<lparr>data = 100, size_v = 13\<rparr> \<or> size_v \<lparr>data = 100, size_v = 13\<rparr> = 0"
    by (simp_all add: strview_is_valid_def)
  show ?thesis
    using split_index_roundtrip [OF ok, of "- 5" "store 100 ''ABCDE...FGHIJ'' zero_mem"]
    by auto
qed

text \<open>
  C7 as stated holds for every view. \<^verbatim>\<open>split_index\<close> does not look at the data pointer:
  on the Invalid view \<open>{null, 5}\<close>, whose content is empty, \<open>split_index(&v, 2)\<close> returns
  \<open>{null, 2}\<close> and leaves the valid view of three bytes at address 2 in \<open>v\<close>. The two
  pieces hold three bytes, the original none.
\<close>

theorem split_index_stale_invalid_counterexample:
  "strview_split_index (Some \<lparr>data = NULL, size_v = 5\<rparr>) 2
     = (\<lparr>data = NULL, size_v = 2\<rparr>, Some \<lparr>data = 2, size_v = 3\<rparr>)
   \<and> strview_bytes zero_mem \<lparr>data = NULL, size_v = 5\<rparr> = []
   \<and> strview_bytes zero_mem \<lparr>data = NULL, size_v = 2\<rparr> @ strview_bytes zero_mem \<lparr>data = 2, size_v = 3\<rparr>
       = [NUL, NUL, NUL]
   \<and> strview_bytes zero_mem (fst (strview_split_index (Some \<lparr>data = NULL, size_v = 5\<rparr>) 2))
       @ strview_bytes zero_mem (the (snd (strview_split_index (Some \<lparr>data = NULL, size_v = 5\<rparr>) 2)))
       \<noteq> strview_bytes zero_mem \<lparr>data = NULL, size_v = 5\<rparr>
   \<and> strview_is_valid (the (snd (strview_split_index (Some \<lparr>data = NULL, size_v = 5\<rparr>) 2)))"
  by code_simp

section \<open>Searching for an empty needle\<close>

text \<open>
  C9. For every valid haystack \<open>h\<close> and every valid needle \<open>n\<close> of length zero,
  \<^verbatim>\<open>strview_find_first(h, n)\<close> is the valid zero-length view at the start of \<open>h\<close> and
  \<^verbatim>\<open>strview_find_last(h, n)\<close> is the valid zero-length view at the end of \<open>h\<close>: an empty
  needle always matches.
\<close>

theorem find_empty_needle:
  assumes "wellformed h" and "strview_is_valid h"
    and "strview_is_valid n" and "size_v n = 0"
  shows "strview_find_first m h n = \<lparr>data = data h, size_v = 0\<rparr>
         \<and> strview_find_last m h n = \<lparr>data = data h + size_v h, size_v = 0\<rparr>
         \<and> strview_is_valid (strview_find_first m h n)
         \<and> strview_is_valid (strview_find_last m h n)"
proof -
  from assms have h: "0 < data h" "0 \<le> size_v h" "data n \<noteq> NULL"
    by (auto simp: wellformed_def strview_is_valid_def split: if_splits)
  have z: "size_t 0 = 0" by (simp add: size_t_def)
  have "find_first_loop m h n (data h) False = (data h, True)"
    using h assms(4) by (simp add: z)
  moreover have "find_last_loop m h n (data h + size_v h) False = (data h + size_v h, True)"
    using h assms(4) by (simp add: z)
  ultimately show ?thesis
    using h assms(4) by (simp add: strview_find_first_def strview_find_last_def strview_is_valid_def)
qed

text \<open>The theorem at a haystack of three bytes.\<close>

theorem find_empty_needle_witness:
  "strview_find_first (store 100 ''hay'' zero_mem) \<lparr>data = 100, size_v = 3\<rparr> \<lparr>data = 50, size_v = 0\<rparr>
     = \<lparr>data = 100, size_v = 0\<rparr>
   \<and> strview_find_last (store 100 ''hay'' zero_mem) \<lparr>data = 100, size_v = 3\<rparr> \<lparr>data = 50, size_v = 0\<rparr>
     = \<lparr>data = 103, size_v = 0\<rparr>"
  using find_empty_needle [of "\<lparr>data = 100, size_v = 3\<rparr>" "\<lparr>data = 50, size_v = 0\<rparr>" "store 100 ''hay'' zero_mem"]
  by (simp add: wellformed_def strview_is_valid_def)

section \<open>Matching an Invalid view with an empty one\<close>

text \<open>
  C10. \<^verbatim>\<open>strview_is_match\<close> and \<^verbatim>\<open>strview_is_match_nocase\<close> hold when one argument is the
  Invalid view (null data, size 0) and the other is a zero-length view at any address:
  the sizes are equal and no byte differs, and validity is not compared.
\<close>

theorem is_match_invalid_valid_empty:
  "strview_is_match m STRVIEW_INVALID \<lparr>data = p, size_v = 0\<rparr>
   \<and> strview_is_match m \<lparr>data = p, size_v = 0\<rparr> STRVIEW_INVALID
   \<and> strview_is_match_nocase m STRVIEW_INVALID \<lparr>data = p, size_v = 0\<rparr>
   \<and> strview_is_match_nocase m \<lparr>data = p, size_v = 0\<rparr> STRVIEW_INVALID"
  by (simp add: strview_is_match_def strview_is_match_nocase_def STRVIEW_INVALID_def
      size_t_def memcmp_nocase_def)

section \<open>Splitting at the first delimiter\<close>

lemma split_first_delimeter_found:
  assumes wf: "wellformed src" "wellformed d"
    and i: "i < length (strview_bytes m src)"
    and at: "strview_bytes m src ! i \<in> set (strview_bytes m d)"
    and before: "\<forall>j<i. strview_bytes m src ! j \<notin> set (strview_bytes m d)"
  shows "split_first_delimeter m src d True
           = Some (\<lparr>data = data src, size_v = int i\<rparr>,
                   \<lparr>data = (if size_v src - int i - 1 \<noteq> 0 then data src + int i + 1 else data src + int i),
                    size_v = size_v src - int i - 1\<rparr>)"
proof -
  from bytes_nonempty_valid [OF wf(1) i] have src: "0 < data src" "int i < size_v src" by auto
  from mem_bytes_valid [OF wf(2) at] have d: "data d \<noteq> NULL" "0 \<le> size_v d" by auto
  have nth: "\<And>j. j \<le> i \<Longrightarrow> strview_bytes m src ! j = m (data src + int j)"
    using src by (intro strview_bytes_nth) auto
  have q: "m (data src + int i) \<in> set (strview_bytes m d)" using at nth by simp
  have bf: "\<forall>a. data src \<le> a \<and> a < data src + int i \<longrightarrow> m a \<notin> set (strview_bytes m d)"
  proof (intro allI impI)
    fix a assume a: "data src \<le> a \<and> a < data src + int i"
    then have "nat (a - data src) < i" by linarith
    then have "strview_bytes m src ! nat (a - data src) \<notin> set (strview_bytes m d)"
      using before by blast
    moreover have "strview_bytes m src ! nat (a - data src) = m (data src + int (nat (a - data src)))"
      using a by (intro nth) linarith
    ultimately show "m a \<notin> set (strview_bytes m d)" using a by simp
  qed
  have "split_first_loop m src d True False (data src) = Some (True, data src + int i)"
    using src q bf by (intro split_first_loop_some [OF d]) auto
  then show ?thesis
    using src d by (simp add: split_first_delimeter_def Let_def)
qed

lemma split_first_delimeter_not_found:
  assumes wf: "wellformed src" "wellformed d"
    and none: "set (strview_bytes m src) \<inter> set (strview_bytes m d) = {}"
  shows "split_first_delimeter m src d True = Some (src, STRVIEW_INVALID)"
proof (cases "data src \<noteq> NULL \<and> data d \<noteq> NULL")
  case False
  then show ?thesis by (auto simp: split_first_delimeter_def)
next
  case True
  with wf have src: "0 < data src" "0 \<le> size_v src" and d: "data d \<noteq> NULL" "0 \<le> size_v d"
    by (auto simp: wellformed_def)
  have "\<forall>a. data src \<le> a \<and> a < data src + size_v src \<longrightarrow> m a \<notin> set (strview_bytes m d)"
  proof (intro allI impI)
    fix a assume a: "data src \<le> a \<and> a < data src + size_v src"
    then have "m a \<in> set (strview_bytes m src)"
      using src by (subst set_strview_bytes) auto
    with none show "m a \<notin> set (strview_bytes m d)" by blast
  qed
  then have "split_first_loop m src d True False (data src) = Some (False, data src + size_v src)"
    using src by (intro split_first_loop_none [OF d]) auto
  with True show ?thesis by (simp add: split_first_delimeter_def)
qed

text \<open>
  C5. For well-formed views \<open>src\<close> and \<open>d\<close>: if the first byte of \<open>src\<close> that belongs to
  \<open>d\<close> is at offset \<open>i\<close>, then \<^verbatim>\<open>strview_split_first_delimeter(&src, d)\<close> returns the first
  \<open>i\<close> bytes of \<open>src\<close> and leaves in \<open>src\<close> a valid view of the bytes after that delimiter,
  which has length zero when the delimiter is the last byte; if no byte of \<open>src\<close> belongs
  to \<open>d\<close>, it returns \<open>src\<close> itself and sets \<open>src\<close> to \<^verbatim>\<open>STRVIEW_INVALID\<close>.
\<close>

theorem split_first_delimeter_spec:
  assumes "wellformed src" and "wellformed d"
  shows "(\<forall>i. i < length (strview_bytes m src)
             \<and> strview_bytes m src ! i \<in> set (strview_bytes m d)
             \<and> (\<forall>j<i. strview_bytes m src ! j \<notin> set (strview_bytes m d)) \<longrightarrow>
           (\<exists>result src'.
              strview_split_first_delimeter m (Some src) d = Some (result, Some src')
              \<and> result = \<lparr>data = data src, size_v = int i\<rparr>
              \<and> strview_bytes m result = take i (strview_bytes m src)
              \<and> strview_is_valid src'
              \<and> strview_bytes m src' = drop (Suc i) (strview_bytes m src)
              \<and> (Suc i = length (strview_bytes m src) \<longrightarrow> size_v src' = 0)))
       \<and> (set (strview_bytes m src) \<inter> set (strview_bytes m d) = {} \<longrightarrow>
            strview_split_first_delimeter m (Some src) d = Some (src, Some STRVIEW_INVALID)
            \<and> \<not> strview_is_valid STRVIEW_INVALID)"
proof (intro conjI allI impI)
  fix i
  assume h: "i < length (strview_bytes m src)
             \<and> strview_bytes m src ! i \<in> set (strview_bytes m d)
             \<and> (\<forall>j<i. strview_bytes m src ! j \<notin> set (strview_bytes m d))"
  let ?r = "\<lparr>data = data src, size_v = int i\<rparr>"
  let ?s = "\<lparr>data = (if size_v src - int i - 1 \<noteq> 0 then data src + int i + 1 else data src + int i),
             size_v = size_v src - int i - 1\<rparr>"
  from h assms have eq: "split_first_delimeter m src d True = Some (?r, ?s)"
    by (intro split_first_delimeter_found) auto
  from bytes_nonempty_valid [OF assms(1)] h have src: "0 < data src" "int i < size_v src" by auto
  have len: "length (strview_bytes m src) = nat (size_v src)"
    using src by (simp add: strview_bytes_length)
  have r: "strview_bytes m ?r = take i (strview_bytes m src)"
    using strview_bytes_take [of src "int i" m] src by simp
  have s: "strview_bytes m ?s = drop (Suc i) (strview_bytes m src)"
  proof (cases "size_v src - int i - 1 = 0")
    case True
    then have "Suc i = nat (size_v src)" by linarith
    with True src len show ?thesis by (simp add: strview_bytes_def)
  next
    case False
    have "strview_bytes m \<lparr>data = data src + (int i + 1), size_v = size_v src - (int i + 1)\<rparr>
            = drop (nat (int i + 1)) (strview_bytes m src)"
      using src by (intro strview_bytes_drop) auto
    moreover have "nat (int i + 1) = Suc i" by simp
    ultimately show ?thesis using False by (simp add: algebra_simps)
  qed
  have v: "strview_is_valid ?s" using src by (simp add: strview_is_valid_def)
  have z: "Suc i = length (strview_bytes m src) \<longrightarrow> size_v ?s = 0"
    using len src by auto
  show "\<exists>result src'.
              strview_split_first_delimeter m (Some src) d = Some (result, Some src')
              \<and> result = \<lparr>data = data src, size_v = int i\<rparr>
              \<and> strview_bytes m result = take i (strview_bytes m src)
              \<and> strview_is_valid src'
              \<and> strview_bytes m src' = drop (Suc i) (strview_bytes m src)
              \<and> (Suc i = length (strview_bytes m src) \<longrightarrow> size_v src' = 0)"
    using eq r s v z by (intro exI [of _ ?r] exI [of _ ?s]) (simp add: strview_split_first_delimeter_def)
next
  assume "set (strview_bytes m src) \<inter> set (strview_bytes m d) = {}"
  with assms show "strview_split_first_delimeter m (Some src) d = Some (src, Some STRVIEW_INVALID)"
    by (simp add: strview_split_first_delimeter_def split_first_delimeter_not_found)
next
  show "\<not> strview_is_valid STRVIEW_INVALID"
    by (simp add: strview_is_valid_def STRVIEW_INVALID_def)
qed

text \<open>
  The theorem at the source \<open>07/03\<close> with the delimiter \<open>/\<close>, and at the rest \<open>03\<close>, which
  has no delimiter.
\<close>

theorem split_first_delimeter_spec_witness:
  "strview_split_first_delimeter (store 10 ''/'' (store 100 ''07/03'' zero_mem))
     (Some \<lparr>data = 100, size_v = 5\<rparr>) \<lparr>data = 10, size_v = 1\<rparr>
     = Some (\<lparr>data = 100, size_v = 2\<rparr>, Some \<lparr>data = 103, size_v = 2\<rparr>)
   \<and> strview_split_first_delimeter (store 10 ''/'' (store 100 ''07/03'' zero_mem))
     (Some \<lparr>data = 103, size_v = 2\<rparr>) \<lparr>data = 10, size_v = 1\<rparr>
     = Some (\<lparr>data = 103, size_v = 2\<rparr>, Some STRVIEW_INVALID)"
proof -
  let ?m = "store 10 ''/'' (store 100 ''07/03'' zero_mem)"
  let ?src = "\<lparr>data = 100, size_v = 5\<rparr>"
  let ?rest = "\<lparr>data = 103, size_v = 2\<rparr>"
  let ?d = "\<lparr>data = 10, size_v = 1\<rparr>"
  have wf: "wellformed ?src" "wellformed ?rest" "wellformed ?d" by (simp_all add: wellformed_def)
  have b: "strview_bytes ?m ?src = ''07/03''" "strview_bytes ?m ?d = ''/''"
    "strview_bytes ?m ?rest = ''03''"
    by code_simp+
  have found: "(2::nat) < length (strview_bytes ?m ?src)
      \<and> strview_bytes ?m ?src ! 2 \<in> set (strview_bytes ?m ?d)
      \<and> (\<forall>j<2. strview_bytes ?m ?src ! j \<notin> set (strview_bytes ?m ?d))"
    unfolding b by (simp add: less_Suc_eq numeral_2_eq_2)
  have none: "set (strview_bytes ?m ?rest) \<inter> set (strview_bytes ?m ?d) = {}"
    unfolding b by simp
  obtain result src' where
    "strview_split_first_delimeter ?m (Some ?src) ?d = Some (result, Some src')"
    "result = \<lparr>data = data ?src, size_v = int 2\<rparr>" "strview_is_valid src'"
    "strview_bytes ?m src' = drop (Suc 2) (strview_bytes ?m ?src)"
    using split_first_delimeter_spec [OF wf(1) wf(3), of ?m] found by blast
  moreover have "strview_split_first_delimeter ?m (Some ?src) ?d
      = Some (\<lparr>data = 100, size_v = 2\<rparr>, Some ?rest)" by code_simp
  moreover have "strview_split_first_delimeter ?m (Some ?rest) ?d = Some (?rest, Some STRVIEW_INVALID)"
    using split_first_delimeter_spec [OF wf(2) wf(3), of ?m] none by blast
  ultimately show ?thesis by simp
qed

section \<open>The round trip of the delimiter splitter\<close>

lemma rejoin_Cons:
  "ps \<noteq> [] \<Longrightarrow> rejoin m (p # ps) = strview_bytes m p @ m (data p + size_v p) # rejoin m ps"
  by (cases ps) simp_all

lemma split_all_invalid: "\<not> strview_is_valid v \<Longrightarrow> 0 < k \<Longrightarrow> split_all k m v d = Some []"
  by (cases k) simp_all

lemma split_all_rejoin:
  "wellformed v \<Longrightarrow> wellformed d \<Longrightarrow> nat (size_v v) + 2 \<le> k \<Longrightarrow>
   \<exists>ps. split_all k m v d = Some ps
      \<and> rejoin m ps = strview_bytes m v
      \<and> (strview_is_valid v \<longrightarrow> ps \<noteq> [])
      \<and> (\<forall>p \<in> set (butlast ps). m (data p + size_v p) \<in> set (strview_bytes m d))"
proof (induction k arbitrary: v)
  case 0
  then show ?case by simp
next
  case (Suc k)
  show ?case
  proof (cases "strview_is_valid v")
    case False
    then show ?thesis by (simp add: strview_is_valid_def strview_bytes_def)
  next
    case True
    then have dv: "data v \<noteq> NULL" by (simp add: strview_is_valid_def)
    with Suc.prems have v: "0 < data v" "0 \<le> size_v v" by (simp_all add: wellformed_def)
    let ?B = "strview_bytes m v"
    let ?D = "set (strview_bytes m d)"
    show ?thesis
    proof (cases "set ?B \<inter> ?D = {}")
      case none: True
      have "split_first_delimeter m v d True = Some (v, STRVIEW_INVALID)"
        using Suc.prems(1,2) none by (rule split_first_delimeter_not_found)
      moreover have "split_all k m STRVIEW_INVALID d = Some []"
        using Suc.prems(3) by (intro split_all_invalid) (simp_all add: strview_is_valid_def STRVIEW_INVALID_def)
      ultimately have "split_all (Suc k) m v d = Some [v]"
        using True by (simp add: strview_split_first_delimeter_def)
      then show ?thesis by (intro exI [of _ "[v]"]) (simp del: split_all.simps)
    next
      case False
      from first_delimiter_index [OF False]
      obtain i where i: "i < length ?B" "?B ! i \<in> ?D" "\<forall>j<i. ?B ! j \<notin> ?D"
        by blast
      let ?r = "\<lparr>data = data v, size_v = int i\<rparr>"
      let ?s = "\<lparr>data = (if size_v v - int i - 1 \<noteq> 0 then data v + int i + 1 else data v + int i),
                 size_v = size_v v - int i - 1\<rparr>"
      have eq: "split_first_delimeter m v d True = Some (?r, ?s)"
        using Suc.prems(1,2) i by (rule split_first_delimeter_found)
      have len: "length ?B = nat (size_v v)" using dv by (simp add: strview_bytes_length)
      with i have lt: "int i < size_v v" by linarith
      have wfs: "wellformed ?s" using v lt by (simp add: wellformed_def)
      have vs: "strview_is_valid ?s" using v by (simp add: strview_is_valid_def)
      have fuel: "nat (size_v ?s) + 2 \<le> k" using Suc.prems(3) lt by simp
      from Suc.IH [OF wfs Suc.prems(2) fuel] vs obtain ps where
        ps: "split_all k m ?s d = Some ps" "rejoin m ps = strview_bytes m ?s" "ps \<noteq> []"
          "\<forall>p \<in> set (butlast ps). m (data p + size_v p) \<in> ?D"
        by blast
      have r: "strview_bytes m ?r = take i ?B"
        using strview_bytes_take [of v "int i" m] dv lt by simp
      have s: "strview_bytes m ?s = drop (Suc i) ?B"
      proof (cases "size_v v - int i - 1 = 0")
        case True
        then have "Suc i = nat (size_v v)" by linarith
        with True v len show ?thesis by (simp add: strview_bytes_def)
      next
        case False
        have "strview_bytes m \<lparr>data = data v + (int i + 1), size_v = size_v v - (int i + 1)\<rparr>
                = drop (nat (int i + 1)) ?B"
          using v lt by (intro strview_bytes_drop) auto
        moreover have "nat (int i + 1) = Suc i" by simp
        ultimately show ?thesis using False by (simp add: algebra_simps)
      qed
      have at: "m (data ?r + size_v ?r) = ?B ! i"
        using strview_bytes_nth [of v i m] dv i(1) len by simp
      have all: "split_all (Suc k) m v d = Some (?r # ps)"
        using True eq ps(1) by (simp add: strview_split_first_delimeter_def)
      have "rejoin m (?r # ps) = take i ?B @ ?B ! i # drop (Suc i) ?B"
        using ps(2,3) r s at by (simp add: rejoin_Cons)
      then have "rejoin m (?r # ps) = ?B"
        using i(1) by (simp add: id_take_nth_drop [symmetric])
      moreover have "\<forall>p \<in> set (butlast (?r # ps)). m (data p + size_v p) \<in> ?D"
        using ps(3,4) at i(2) by simp
      ultimately show ?thesis
        using all by (intro exI [of _ "?r # ps"]) (simp del: split_all.simps rejoin.simps)
    qed
  qed
qed

text \<open>
  C6. For every well-formed view \<open>v\<close> and every well-formed delimiter set \<open>d\<close> (so every
  non-empty one), calling \<^verbatim>\<open>strview_split_first_delimeter(&v, d)\<close> until \<open>v\<close> is Invalid
  ends within length + 2 steps, and the returned pieces, joined with the consumed byte
  between consecutive pieces, are the content of \<open>v\<close>; each consumed byte belongs to \<open>d\<close>.
\<close>

theorem split_first_delimeter_roundtrip:
  assumes "wellformed v" and "wellformed d"
  shows "\<exists>ps. split_all (nat (size_v v) + 2) m v d = Some ps
           \<and> rejoin m ps = strview_bytes m v
           \<and> (\<forall>p \<in> set (butlast ps). m (data p + size_v p) \<in> set (strview_bytes m d))"
  using split_all_rejoin [OF assms, of "nat (size_v v) + 2" m] by blast

text \<open>The theorem at the source \<open>07/03\<close> with the delimiter \<open>/\<close>.\<close>

theorem split_first_delimeter_roundtrip_witness:
  "split_all 7 (store 10 ''/'' (store 100 ''07/03'' zero_mem))
     \<lparr>data = 100, size_v = 5\<rparr> \<lparr>data = 10, size_v = 1\<rparr>
     = Some [\<lparr>data = 100, size_v = 2\<rparr>, \<lparr>data = 103, size_v = 2\<rparr>]
   \<and> rejoin (store 10 ''/'' (store 100 ''07/03'' zero_mem))
         [\<lparr>data = 100, size_v = 2\<rparr>, \<lparr>data = 103, size_v = 2\<rparr>]
     = strview_bytes (store 10 ''/'' (store 100 ''07/03'' zero_mem)) \<lparr>data = 100, size_v = 5\<rparr>"
proof -
  let ?m = "store 10 ''/'' (store 100 ''07/03'' zero_mem)"
  let ?v = "\<lparr>data = 100, size_v = 5\<rparr>"
  let ?d = "\<lparr>data = 10, size_v = 1\<rparr>"
  have wf: "wellformed ?v" "wellformed ?d" by (simp_all add: wellformed_def)
  have fuel: "nat (size_v ?v) + 2 = 7" by simp
  obtain ps where ps: "split_all 7 ?m ?v ?d = Some ps" "rejoin ?m ps = strview_bytes ?m ?v"
    using split_first_delimeter_roundtrip [OF wf, of ?m] unfolding fuel by blast
  moreover have "split_all 7 ?m ?v ?d = Some [\<lparr>data = 100, size_v = 2\<rparr>, \<lparr>data = 103, size_v = 2\<rparr>]"
    by code_simp
  ultimately show ?thesis by simp
qed

section \<open>The terminal state of the delimiter splitters\<close>

lemma split_first_delimeter_invalid:
  "data sv = NULL \<Longrightarrow> split_first_delimeter m sv d cs = Some (sv, STRVIEW_INVALID)"
  by (simp add: split_first_delimeter_def)

lemma split_last_delimeter_invalid:
  "data sv = NULL \<Longrightarrow> split_last_delimeter m sv d cs = Some (sv, STRVIEW_INVALID)"
  by (simp add: split_last_delimeter_def)

text \<open>
  C8. Once the source is Invalid, as a call of \<^verbatim>\<open>strview_split_first_delimeter\<close> or
  \<^verbatim>\<open>strview_split_last_delimeter\<close> that finds no delimiter leaves it, every later call of
  either splitter, with any delimiters, returns an Invalid view and leaves the source
  Invalid.
\<close>

theorem delimiter_splitters_absorbing:
  assumes "\<not> strview_is_valid src"
  shows "\<exists>rs final. split_calls m src calls = Some (rs, final)
           \<and> length rs = length calls
           \<and> (\<forall>r \<in> set rs. \<not> strview_is_valid r)
           \<and> \<not> strview_is_valid final
           \<and> (calls \<noteq> [] \<longrightarrow> final = STRVIEW_INVALID)"
  using assms
proof (induction calls arbitrary: src)
  case Nil
  then show ?case by simp
next
  case (Cons call calls)
  obtain from_end d where call: "call = (from_end, d)" by (cases call)
  from Cons.prems have null: "data src = NULL" by (simp add: strview_is_valid_def)
  have inv: "\<not> strview_is_valid STRVIEW_INVALID"
    by (simp add: strview_is_valid_def STRVIEW_INVALID_def)
  have step: "(if from_end then strview_split_last_delimeter m (Some src) d
               else strview_split_first_delimeter m (Some src) d)
                = Some (src, Some STRVIEW_INVALID)"
    using null by (simp add: strview_split_last_delimeter_def strview_split_first_delimeter_def
        split_first_delimeter_invalid split_last_delimeter_invalid)
  from Cons.IH [OF inv] obtain rs final where
    rs: "split_calls m STRVIEW_INVALID calls = Some (rs, final)" "length rs = length calls"
      "\<forall>r \<in> set rs. \<not> strview_is_valid r" "\<not> strview_is_valid final"
      "calls \<noteq> [] \<longrightarrow> final = STRVIEW_INVALID"
    by blast
  have fin: "final = STRVIEW_INVALID"
    using rs(1,5) by (cases calls) simp_all
  have "split_calls m src (call # calls) = Some (src # rs, final)"
    unfolding call split_calls.simps step using rs(1) by simp
  then show ?case
    using rs(2,3,4) fin Cons.prems by (intro exI [of _ "src # rs"] exI [of _ final]) simp
qed

text \<open>
  The theorem at two calls on the Invalid source, which the call on \<open>03\<close> with the
  delimiter \<open>/\<close> leaves behind.
\<close>

theorem delimiter_splitters_absorbing_witness:
  "split_calls (store 10 ''/'' (store 100 ''03'' zero_mem)) \<lparr>data = 100, size_v = 2\<rparr>
     [(False, \<lparr>data = 10, size_v = 1\<rparr>)]
     = Some ([\<lparr>data = 100, size_v = 2\<rparr>], STRVIEW_INVALID)
   \<and> split_calls (store 10 ''/'' (store 100 ''03'' zero_mem)) STRVIEW_INVALID
       [(False, \<lparr>data = 10, size_v = 1\<rparr>), (True, \<lparr>data = 10, size_v = 1\<rparr>)]
     = Some ([STRVIEW_INVALID, STRVIEW_INVALID], STRVIEW_INVALID)"
proof -
  let ?m = "store 10 ''/'' (store 100 ''03'' zero_mem)"
  let ?d = "\<lparr>data = 10, size_v = 1\<rparr>"
  have inv: "\<not> strview_is_valid STRVIEW_INVALID"
    by (simp add: strview_is_valid_def STRVIEW_INVALID_def)
  obtain rs final where
    "split_calls ?m STRVIEW_INVALID [(False, ?d), (True, ?d)] = Some (rs, final)"
    "length rs = length [(False, ?d), (True, ?d)]" "final = STRVIEW_INVALID"
    using delimiter_splitters_absorbing [OF inv, of ?m "[(False, ?d), (True, ?d)]"] by auto
  moreover have "split_calls ?m STRVIEW_INVALID [(False, ?d), (True, ?d)]
      = Some ([STRVIEW_INVALID, STRVIEW_INVALID], STRVIEW_INVALID)"
    by code_simp
  moreover have "split_calls ?m \<lparr>data = 100, size_v = 2\<rparr> [(False, ?d)]
      = Some ([\<lparr>data = 100, size_v = 2\<rparr>], STRVIEW_INVALID)"
    by code_simp
  ultimately show ?thesis by simp
qed

section \<open>Splitting lines\<close>

lemma strlen_zero: "m s = NUL \<Longrightarrow> strlen m s = Some 0"
  by (subst strlen.simps) simp

lemma strlen_step: "m s \<noteq> NUL \<Longrightarrow> strlen m (s + 1) = Some n \<Longrightarrow> strlen m s = Some (n + 1)"
  by (subst strlen.simps) simp

lemma cstr_crlf:
  assumes "crlf \<noteq> NULL" "m crlf = CR" "m (crlf + 1) = LF" "m (crlf + 2) = NUL"
  shows "cstr m crlf = Some \<lparr>data = crlf, size_v = 2\<rparr>"
proof -
  have e: "crlf + 1 + 1 = crlf + 2" by arith
  have n2: "strlen m (crlf + 1 + 1) = Some 0"
    unfolding e using assms(4) by (rule strlen_zero)
  have "m (crlf + 1) \<noteq> NUL" using assms(3) by simp
  then have n1: "strlen m (crlf + 1) = Some (0 + 1)"
    using n2 by (rule strlen_step)
  have "m crlf \<noteq> NUL" using assms(2) by simp
  then have "strlen m crlf = Some (0 + 1 + 1)"
    using n1 by (rule strlen_step)
  with assms(1) show ?thesis by (simp add: cstr_def)
qed

text \<open>
  Without a pending byte that the first byte of the source completes, a source without
  CR and LF is left as it was, and the result is Invalid.
\<close>

lemma strview_split_line_not_found_unmodified:
  assumes lit: "0 < crlf" "m crlf = CR" "m (crlf + 1) = LF" "m (crlf + 2) = NUL"
    and src: "wellformed src" "size_v src \<noteq> 0"
    and none: "CR \<notin> set (strview_bytes m src)" "LF \<notin> set (strview_bytes m src)"
    and eol: "eol = None \<or> eol = Some NUL
              \<or> (\<exists>c. eol = Some c \<and> char_int c + char_int (m (data src)) \<noteq> char_int CR + char_int LF)"
  shows "strview_split_line m crlf (Some src) eol = Some (STRVIEW_INVALID, Some src, eol)"
proof -
  let ?d = "\<lparr>data = crlf, size_v = 2\<rparr>"
  have d: "cstr m crlf = Some ?d" using lit by (intro cstr_crlf) auto
  have wfd: "wellformed ?d" using lit(1) by (simp add: wellformed_def)
  have "strview_bytes m ?d = [m crlf, m (crlf + 1)]"
    using lit(1) by (simp add: strview_bytes_def numeral_2_eq_2)
  then have "set (strview_bytes m ?d) = {CR, LF}" using lit by simp
  with none have "set (strview_bytes m src) \<inter> set (strview_bytes m ?d) = {}" by auto
  then have split: "split_first_delimeter m src ?d True = Some (src, STRVIEW_INVALID)"
    using src(1) wfd by (intro split_first_delimeter_not_found)
  have inv: "\<not> strview_is_valid STRVIEW_INVALID"
    by (simp add: strview_is_valid_def STRVIEW_INVALID_def)
  from eol show ?thesis
    using src(2) d split inv
    by (auto simp: strview_split_line_def strview_split_first_delimeter_def)
qed

text \<open>
  C3 fails when the pending byte is consumed. The source is the four bytes LF, a, b, c at
  address 100 and \<open>*eol\<close> holds CR, left by a line that ended in CR. The call pops the LF,
  finds no terminator in \<open>abc\<close>, returns Invalid and stores the three bytes at address 101
  in the source; \<open>*eol\<close> still holds CR.
\<close>

theorem strview_split_line_pending_consumed:
  "strview_split_line (store 10 [CR, LF, NUL] (store 100 (LF # ''abc'') zero_mem)) 10
     (Some \<lparr>data = 100, size_v = 4\<rparr>) (Some CR)
   = Some (STRVIEW_INVALID, Some \<lparr>data = 101, size_v = 3\<rparr>, Some CR)"
  by code_simp

end
